theory Spec2Isabelle
  imports Main
begin

section \<open>Python values, objects and identities\<close>

text \<open>
  The dispatcher of \<^verbatim>\<open>dispatch/dispatcher.py\<close> (Python 2) is embedded as pure functions
  over an explicit signal state. Receivers and senders are Python objects; what the
  dispatcher looks at is their address (\<^verbatim>\<open>id(x)\<close>) and, for bound-method-like objects,
  the addresses of \<^verbatim>\<open>im_self\<close> and \<^verbatim>\<open>im_func\<close>.
\<close>

text \<open>
  What a receiver can raise. \<^verbatim>\<open>except Exception\<close> catches instances of subclasses of
  \<^verbatim>\<open>Exception\<close> only; \<^verbatim>\<open>KeyboardInterrupt\<close>, \<^verbatim>\<open>SystemExit\<close> and \<^verbatim>\<open>GeneratorExit\<close>
  derive from \<^verbatim>\<open>BaseException\<close> directly.
\<close>

datatype pyexc =
    ExceptionSub string
  | KeyboardInterrupt
  | SystemExit
  | GeneratorExit

fun is_Exception :: "pyexc \<Rightarrow> bool" where
  "is_Exception (ExceptionSub name) = True"
| "is_Exception KeyboardInterrupt = False"
| "is_Exception SystemExit = False"
| "is_Exception GeneratorExit = False"

text \<open>
  Python values that occur as identities, as a \<^verbatim>\<open>dispatch_uid\<close> and as responses.
  \<open>PErr e\<close> is the exception object \<open>e\<close> held as a value.
\<close>

datatype pyval =
    PNone
  | PInt int
  | PStr string
  | PTuple "pyval list"
  | PErr pyexc

text \<open>Truth value of a Python value, as tested by \<^verbatim>\<open>if dispatch_uid:\<close>.\<close>

fun truthy :: "pyval \<Rightarrow> bool" where
  "truthy PNone = False"
| "truthy (PInt n) = (n \<noteq> 0)"
| "truthy (PStr s) = (s \<noteq> [])"
| "truthy (PTuple vs) = (vs \<noteq> [])"
| "truthy (PErr e) = True"

text \<open>
  An object is its address together with, when it has the attribute \<^verbatim>\<open>im_func\<close>,
  the addresses of its \<^verbatim>\<open>im_self\<close> and \<^verbatim>\<open>im_func\<close>. Two accesses of the same method
  of the same instance give objects with different \<open>addr\<close> and the same \<open>im\<close>.
\<close>

record pyobj =
  addr :: nat
  im :: "(nat \<times> nat) option"

definition py_None :: pyobj where
  "py_None = \<lparr>addr = 0, im = None\<rparr>"

text \<open>\<^verbatim>\<open>_make_id(target)\<close>.\<close>

definition make_id :: "pyobj \<Rightarrow> pyval" where
  "make_id target =
     (case im target of
        Some (im_self, im_func) \<Rightarrow> PTuple [PInt (int im_self), PInt (int im_func)]
      | None \<Rightarrow> PInt (int (addr target)))"

section \<open>The signal\<close>

type_synonym regkey = "pyval \<times> pyval"

type_synonym weakref = nat

text \<open>
  A stored receiver is either the receiver itself or a weak reference object made by
  \<^verbatim>\<open>saferef.safeRef\<close>; \<^verbatim>\<open>isinstance(receiver, WEAKREF_TYPES)\<close> is the test on the
  constructor. Receivers handed to \<^verbatim>\<open>connect\<close> are taken to be ordinary callables,
  not weak reference objects themselves. A weak reference object is identified by its
  address, and two of them are equal when they are the same object.
\<close>

datatype handle = Strong pyobj | Weak weakref

record signal =
  receivers :: "(regkey \<times> handle) list"
  providing_args :: "string set"
  lock :: bool

datatype pyerr = IndexError | TypeError

text \<open>
  The result of an operation that mutates the signal: it finishes with the new state,
  raises leaving a state behind, or never returns because it waits for a lock that
  is held.
\<close>

datatype result = Done signal | Raised pyerr signal | Blocked

text \<open>\<^verbatim>\<open>Signal.__init__\<close>.\<close>

definition Signal :: "string list option \<Rightarrow> signal" where
  "Signal args =
     \<lparr>receivers = [],
      providing_args = set (case args of None \<Rightarrow> [] | Some xs \<Rightarrow> xs),
      lock = False\<rparr>"

text \<open>
  \<^verbatim>\<open>threading.Lock\<close>: \<^verbatim>\<open>acquire()\<close> on a held lock waits until some other thread
  releases it, which in one thread is forever.
\<close>

definition acquire :: "signal \<Rightarrow> signal option" where
  "acquire s = (if lock s then None else Some (s\<lparr>lock := True\<rparr>))"

definition release :: "signal \<Rightarrow> signal" where
  "release s = s\<lparr>lock := False\<rparr>"

text \<open>The key computed at the head of \<^verbatim>\<open>connect\<close> and of \<^verbatim>\<open>disconnect\<close>.\<close>

definition lookup_key :: "pyobj \<Rightarrow> pyobj \<Rightarrow> pyval \<Rightarrow> regkey" where
  "lookup_key receiver sender dispatch_uid =
     (if truthy dispatch_uid then (dispatch_uid, make_id sender)
      else (make_id receiver, make_id sender))"

subsection \<open>connect\<close>

text \<open>
  The \<^verbatim>\<open>for ... else\<close> of \<^verbatim>\<open>connect\<close>: \<open>True\<close> when the loop leaves by \<^verbatim>\<open>break\<close>.
\<close>

fun key_found :: "regkey \<Rightarrow> (regkey \<times> handle) list \<Rightarrow> bool" where
  "key_found lookup [] = False"
| "key_found lookup ((r_key, h) # rest) =
     (if r_key = lookup then True else key_found lookup rest)"

text \<open>
  Modelled from the spec: \<^verbatim>\<open>saferef.safeRef\<close> is not among the sources. It is the
  parameter \<open>safeRef\<close>: given a receiver it produces a weak handle, or fails when
  the receiver cannot be weakly tracked.
\<close>

definition connect ::
  "(pyobj \<Rightarrow> weakref option) \<Rightarrow> pyobj \<Rightarrow> pyobj \<Rightarrow> bool \<Rightarrow> pyval \<Rightarrow> signal \<Rightarrow> result" where
  "connect safeRef receiver sender weak dispatch_uid s =
     (let key = lookup_key receiver sender dispatch_uid in
      case (if weak then map_option Weak (safeRef receiver) else Some (Strong receiver)) of
        None \<Rightarrow> Raised TypeError s
      | Some h \<Rightarrow>
          (case acquire s of
             None \<Rightarrow> Blocked
           | Some s1 \<Rightarrow>
               Done (release
                 (if key_found key (receivers s1) then s1
                  else s1\<lparr>receivers := receivers s1 @ [(key, h)]\<rparr>))))"

subsection \<open>disconnect\<close>

text \<open>
  \<^verbatim>\<open>xs[i]\<close> and \<^verbatim>\<open>del xs[i]\<close> on a Python list: a negative index counts from the end,
  an index out of range raises \<^verbatim>\<open>IndexError\<close> (\<open>None\<close> here).
\<close>

definition py_index :: "int \<Rightarrow> 'a list \<Rightarrow> nat option" where
  "py_index i xs =
     (let n = int (length xs); j = (if i < 0 then i + n else i)
      in if 0 \<le> j \<and> j < n then Some (nat j) else None)"

definition py_getitem :: "'a list \<Rightarrow> int \<Rightarrow> 'a option" where
  "py_getitem xs i = map_option (\<lambda>j. xs ! j) (py_index i xs)"

definition py_del :: "int \<Rightarrow> 'a list \<Rightarrow> 'a list option" where
  "py_del i xs = map_option (\<lambda>j. take j xs @ drop (Suc j) xs) (py_index i xs)"

text \<open>
  The loop \<^verbatim>\<open>for index in xrange(len(self.receivers))\<close>: the index list is computed
  once, and the loop ends at the first deletion.
\<close>

fun disconnect_loop ::
  "regkey \<Rightarrow> nat list \<Rightarrow> (regkey \<times> handle) list \<Rightarrow> pyerr + (regkey \<times> handle) list" where
  "disconnect_loop lookup [] rs = Inr rs"
| "disconnect_loop lookup (index # rest) rs =
     (case py_getitem rs (int index) of
        None \<Rightarrow> Inl IndexError
      | Some (r_key, h) \<Rightarrow>
          (if r_key = lookup then
             (case py_del (int index) rs of
                None \<Rightarrow> Inl IndexError
              | Some rs' \<Rightarrow> Inr rs')
           else disconnect_loop lookup rest rs))"

definition disconnect :: "pyobj \<Rightarrow> pyobj \<Rightarrow> bool \<Rightarrow> pyval \<Rightarrow> signal \<Rightarrow> result" where
  "disconnect receiver sender weak dispatch_uid s =
     (let key = lookup_key receiver sender dispatch_uid in
      case acquire s of
        None \<Rightarrow> Blocked
      | Some s1 \<Rightarrow>
          (case disconnect_loop key [0..<length (receivers s1)] (receivers s1) of
             Inl e \<Rightarrow> Raised e (release s1)
           | Inr rs \<Rightarrow> Done (release (s1\<lparr>receivers := rs\<rparr>))))"

subsection \<open>Dispatch\<close>

definition none_senderkey :: pyval where
  "none_senderkey = make_id py_None"

text \<open>
  Modelled from the spec: the weak reference objects of \<^verbatim>\<open>saferef\<close> are not among the
  sources. Calling one (\<^verbatim>\<open>receiver()\<close>) is the parameter \<open>resolve\<close>, which gives the
  receiver, or \<open>None\<close> when the target is gone.
\<close>

text \<open>
  The loop of \<^verbatim>\<open>_live_receivers\<close>, with the list being built as accumulator.
\<close>

fun live_loop ::
  "(weakref \<Rightarrow> pyobj option) \<Rightarrow> pyval \<Rightarrow> (regkey \<times> handle) list \<Rightarrow> pyobj list \<Rightarrow> pyobj list" where
  "live_loop resolve senderkey [] acc = acc"
| "live_loop resolve senderkey (((receiverkey, r_senderkey), receiver) # rest) acc =
     (if r_senderkey = none_senderkey \<or> r_senderkey = senderkey then
        (case receiver of
           Weak w \<Rightarrow>
             (case resolve w of
                Some r \<Rightarrow> live_loop resolve senderkey rest (acc @ [r])
              | None \<Rightarrow> live_loop resolve senderkey rest acc)
         | Strong r \<Rightarrow> live_loop resolve senderkey rest (acc @ [r]))
      else live_loop resolve senderkey rest acc)"

definition live_receivers ::
  "(weakref \<Rightarrow> pyobj option) \<Rightarrow> signal \<Rightarrow> pyval \<Rightarrow> pyobj list" where
  "live_receivers resolve s senderkey = live_loop resolve senderkey (receivers s) []"

text \<open>
  Calling a receiver: it returns a value or raises, and changes the world \<open>'w\<close>
  (everything outside the dispatcher that receivers can read and write).
  Receivers are taken to terminate.
\<close>

datatype outcome = Return pyval | Raise pyexc

text \<open>
  The loop of \<^verbatim>\<open>send\<close>. The result is \<open>Inl e\<close> when the exception \<open>e\<close> leaves
  \<^verbatim>\<open>send\<close>, and \<open>Inr responses\<close> when it returns.
\<close>

fun send_loop ::
  "(pyobj \<Rightarrow> 'w \<Rightarrow> outcome \<times> 'w) \<Rightarrow> pyobj list \<Rightarrow> (pyobj \<times> pyval) list \<Rightarrow> 'w
     \<Rightarrow> (pyexc + (pyobj \<times> pyval) list) \<times> 'w" where
  "send_loop call [] responses w = (Inr responses, w)"
| "send_loop call (receiver # rest) responses w =
     (case call receiver w of
        (Raise e, w') \<Rightarrow> (Inl e, w')
      | (Return response, w') \<Rightarrow> send_loop call rest (responses @ [(receiver, response)]) w')"

text \<open>
  \<open>invoke receiver sender named\<close> is the call
  \<^verbatim>\<open>receiver(signal=self, sender=sender, **named)\<close>.
\<close>

definition send ::
  "(weakref \<Rightarrow> pyobj option) \<Rightarrow> (pyobj \<Rightarrow> pyobj \<Rightarrow> 'n \<Rightarrow> 'w \<Rightarrow> outcome \<times> 'w)
     \<Rightarrow> signal \<Rightarrow> pyobj \<Rightarrow> 'n \<Rightarrow> 'w \<Rightarrow> (pyexc + (pyobj \<times> pyval) list) \<times> 'w" where
  "send resolve invoke s sender named w =
     (if receivers s = [] then (Inr [], w)
      else send_loop (\<lambda>receiver. invoke receiver sender named)
             (live_receivers resolve s (make_id sender)) [] w)"

text \<open>The loop of \<^verbatim>\<open>send_robust\<close>, with its \<^verbatim>\<open>except Exception, err\<close>.\<close>

fun send_robust_loop ::
  "(pyobj \<Rightarrow> 'w \<Rightarrow> outcome \<times> 'w) \<Rightarrow> pyobj list \<Rightarrow> (pyobj \<times> pyval) list \<Rightarrow> 'w
     \<Rightarrow> (pyexc + (pyobj \<times> pyval) list) \<times> 'w" where
  "send_robust_loop call [] responses w = (Inr responses, w)"
| "send_robust_loop call (receiver # rest) responses w =
     (case call receiver w of
        (Raise err, w') \<Rightarrow>
          (if is_Exception err
           then send_robust_loop call rest (responses @ [(receiver, PErr err)]) w'
           else (Inl err, w'))
      | (Return response, w') \<Rightarrow>
          send_robust_loop call rest (responses @ [(receiver, response)]) w')"

definition send_robust ::
  "(weakref \<Rightarrow> pyobj option) \<Rightarrow> (pyobj \<Rightarrow> pyobj \<Rightarrow> 'n \<Rightarrow> 'w \<Rightarrow> outcome \<times> 'w)
     \<Rightarrow> signal \<Rightarrow> pyobj \<Rightarrow> 'n \<Rightarrow> 'w \<Rightarrow> (pyexc + (pyobj \<times> pyval) list) \<times> 'w" where
  "send_robust resolve invoke s sender named w =
     (if receivers s = [] then (Inr [], w)
      else send_robust_loop (\<lambda>receiver. invoke receiver sender named)
             (live_receivers resolve s (make_id sender)) [] w)"

subsection \<open>Reaping\<close>

text \<open>The first loop of \<^verbatim>\<open>_remove_receiver\<close>, collecting \<^verbatim>\<open>to_remove\<close>.\<close>

fun collect_keys :: "handle \<Rightarrow> (regkey \<times> handle) list \<Rightarrow> regkey list \<Rightarrow> regkey list" where
  "collect_keys receiver [] to_remove = to_remove"
| "collect_keys receiver ((key, connected_receiver) # rest) to_remove =
     (if connected_receiver = receiver
      then collect_keys receiver rest (to_remove @ [key])
      else collect_keys receiver rest to_remove)"

text \<open>
  The inner loop \<^verbatim>\<open>for idx, (r_key, _) in enumerate(reversed(self.receivers))\<close>,
  which deletes from the list it walks. The reverse iterator of a list keeps an
  index that starts at the last position and goes down by one at every step; it
  stops when the index is negative or no longer inside the list as it is then.
  \<open>n\<close> is that index plus one.
\<close>

fun rev_scan ::
  "regkey \<Rightarrow> int \<Rightarrow> nat \<Rightarrow> nat \<Rightarrow> (regkey \<times> handle) list \<Rightarrow> pyerr + (regkey \<times> handle) list" where
  "rev_scan key last_idx idx 0 rs = Inr rs"
| "rev_scan key last_idx idx (Suc it) rs =
     (if it < length rs then
        (case rs ! it of
           (r_key, h) \<Rightarrow>
             (if r_key = key then
                (case py_del (last_idx - int idx) rs of
                   None \<Rightarrow> Inl IndexError
                 | Some rs' \<Rightarrow> rev_scan key last_idx (Suc idx) it rs')
              else rev_scan key last_idx (Suc idx) it rs))
      else Inr rs)"

text \<open>
  The outer loop \<^verbatim>\<open>for key in to_remove\<close>. An error would leave the loop with the
  list as it is; no pass raises one, as \<open>remove_keys_filter\<close> shows.
\<close>

fun remove_keys ::
  "regkey list \<Rightarrow> (regkey \<times> handle) list \<Rightarrow> (pyerr \<times> (regkey \<times> handle) list) + (regkey \<times> handle) list" where
  "remove_keys [] rs = Inr rs"
| "remove_keys (key # rest) rs =
     (case rev_scan key (int (length rs) - 1) 0 (length rs) rs of
        Inl e \<Rightarrow> Inl (e, rs)
      | Inr rs' \<Rightarrow> remove_keys rest rs')"

text \<open>\<^verbatim>\<open>_remove_receiver(receiver)\<close>, the callback given to \<^verbatim>\<open>safeRef\<close>.\<close>

definition remove_receiver :: "handle \<Rightarrow> signal \<Rightarrow> result" where
  "remove_receiver receiver s =
     (case acquire s of
        None \<Rightarrow> Blocked
      | Some s1 \<Rightarrow>
          (case remove_keys (collect_keys receiver (receivers s1) []) (receivers s1) of
             Inl (e, rs) \<Rightarrow> Raised e (release (s1\<lparr>receivers := rs\<rparr>))
           | Inr rs \<Rightarrow> Done (release (s1\<lparr>receivers := rs\<rparr>))))"

subsection \<open>Reachable signal states\<close>

text \<open>
  The states a signal can be in between two calls: a new signal, and what \<^verbatim>\<open>connect\<close>,
  \<^verbatim>\<open>disconnect\<close> and the reaping callback make of a reachable state.
\<close>

inductive reachable :: "signal \<Rightarrow> bool" where
  init: "reachable (Signal args)"
| conn: "reachable s \<Longrightarrow> connect safeRef receiver sender weak dispatch_uid s = Done s'
          \<Longrightarrow> reachable s'"
| disc: "reachable s \<Longrightarrow> disconnect receiver sender weak dispatch_uid s = Done s'
          \<Longrightarrow> reachable s'"
| reap: "reachable s \<Longrightarrow> remove_receiver h s = Done s' \<Longrightarrow> reachable s'"

subsection \<open>Removing the first entry with a key\<close>

text \<open>
  What \<^verbatim>\<open>disconnect\<close> is meant to do to the registry, written directly: the first
  entry whose key is \<open>k\<close> goes, everything else stays in place. The loop of
  \<^verbatim>\<open>disconnect\<close> is compared with it below.
\<close>

fun del_first :: "regkey \<Rightarrow> (regkey \<times> handle) list \<Rightarrow> (regkey \<times> handle) list" where
  "del_first k [] = []"
| "del_first k ((r_key, h) # rest) =
     (if r_key = k then rest else (r_key, h) # del_first k rest)"

subsection \<open>Notions used to state what dispatch does\<close>

text \<open>
  The test of \<^verbatim>\<open>_live_receivers\<close> on the sender stored in an entry, and what a stored
  receiver resolves to: itself when held strongly, the target of the weak reference
  (or nothing) otherwise.
\<close>

definition sender_matches :: "pyval \<Rightarrow> regkey \<times> handle \<Rightarrow> bool" where
  "sender_matches senderkey e = (snd (fst e) = none_senderkey \<or> snd (fst e) = senderkey)"

fun resolve_handle :: "(weakref \<Rightarrow> pyobj option) \<Rightarrow> handle \<Rightarrow> pyobj option" where
  "resolve_handle resolve (Strong r) = Some r"
| "resolve_handle resolve (Weak w) = resolve w"

text \<open>
  What each receiver of a list does when all of them are called in order, starting in
  the world \<open>w\<close>: the outcomes and the world at the end.
\<close>

fun outcomes :: "(pyobj \<Rightarrow> 'w \<Rightarrow> outcome \<times> 'w) \<Rightarrow> pyobj list \<Rightarrow> 'w \<Rightarrow> outcome list \<times> 'w" where
  "outcomes call [] w = ([], w)"
| "outcomes call (r # rs) w =
     (case call r w of
        (out, w') \<Rightarrow> (case outcomes call rs w' of (outs, w'') \<Rightarrow> (out # outs, w'')))"

text \<open>
  The response \<^verbatim>\<open>send_robust\<close> records for an outcome, and the outcomes that do not
  leave \<^verbatim>\<open>send_robust\<close>: a return, or an exception that \<^verbatim>\<open>except Exception\<close> catches.
\<close>

fun response_of :: "outcome \<Rightarrow> pyval" where
  "response_of (Return v) = v"
| "response_of (Raise e) = PErr e"

fun catchable :: "outcome \<Rightarrow> bool" where
  "catchable (Return v) = True"
| "catchable (Raise e) = is_Exception e"

text \<open>
  A sequence of \<^verbatim>\<open>connect\<close> calls, each given as (receiver, sender, weak, dispatch_uid),
  and the key each of them computes.
\<close>

fun connect_all ::
  "(pyobj \<Rightarrow> weakref option) \<Rightarrow> (pyobj \<times> pyobj \<times> bool \<times> pyval) list \<Rightarrow> signal \<Rightarrow> result" where
  "connect_all safeRef [] s = Done s"
| "connect_all safeRef ((receiver, sender, weak, dispatch_uid) # rest) s =
     (case connect safeRef receiver sender weak dispatch_uid s of
        Done s' \<Rightarrow> connect_all safeRef rest s'
      | Raised e s' \<Rightarrow> Raised e s'
      | Blocked \<Rightarrow> Blocked)"

definition key_of :: "pyobj \<times> pyobj \<times> bool \<times> pyval \<Rightarrow> regkey" where
  "key_of c = (case c of (receiver, sender, weak, dispatch_uid) \<Rightarrow>
                 lookup_key receiver sender dispatch_uid)"

subsection \<open>Example objects and states\<close>

definition rcv1 :: pyobj where "rcv1 = \<lparr>addr = 101, im = None\<rparr>"

definition rcv2 :: pyobj where "rcv2 = \<lparr>addr = 102, im = None\<rparr>"

definition rcv3 :: pyobj where "rcv3 = \<lparr>addr = 103, im = None\<rparr>"

definition snd1 :: pyobj where "snd1 = \<lparr>addr = 201, im = None\<rparr>"

definition snd2 :: pyobj where "snd2 = \<lparr>addr = 202, im = None\<rparr>"

text \<open>
  A registry with \<open>rcv1\<close> connected weakly twice, for any sender and for \<open>snd1\<close>,
  through the same weak reference object, and \<open>rcv2\<close> connected strongly.
\<close>

definition ex_reg :: signal where
  "ex_reg = \<lparr>receivers = [((PInt 101, PInt 0), Weak 7),
                          ((PInt 101, PInt 201), Weak 7),
                          ((PInt 102, PInt 0), Strong rcv2)],
             providing_args = {}, lock = False\<rparr>"

text \<open>
  A registry with three receivers. The world of the examples is the list of the
  receivers called so far; \<open>rcv1\<close> returns \<open>''a''\<close>, \<open>rcv3\<close> returns \<open>''b''\<close>, and
  \<open>rcv2\<close> does what the first argument of \<open>ex_invoke\<close> says.
\<close>

definition ex_three :: signal where
  "ex_three = \<lparr>receivers = [((PInt 101, PInt 0), Weak 7),
                            ((PInt 102, PInt 201), Strong rcv2),
                            ((PInt 103, PInt 0), Strong rcv3)],
               providing_args = {}, lock = False\<rparr>"

definition ex_resolve :: "weakref \<Rightarrow> pyobj option" where
  "ex_resolve w = (if w = 7 then Some rcv1 else None)"

definition ex_invoke :: "outcome \<Rightarrow> pyobj \<Rightarrow> pyobj \<Rightarrow> unit \<Rightarrow> pyobj list \<Rightarrow> outcome \<times> pyobj list" where
  "ex_invoke second receiver sender named log =
     (if receiver = rcv1 then Return (PStr ''a'')
      else if receiver = rcv2 then second
      else Return (PStr ''b''),
      log @ [receiver])"

definition ex_held :: signal where
  "ex_held = ex_three\<lparr>lock := True\<rparr>"

definition ex_dead :: signal where
  "ex_dead = \<lparr>receivers = [((PInt 101, PInt 0), Weak 9)], providing_args = {}, lock = False\<rparr>"

definition ex_calls :: "(pyobj \<times> pyobj \<times> bool \<times> pyval) list" where
  "ex_calls = [(rcv1, py_None, True, PNone), (rcv2, snd1, False, PNone),
               (rcv3, py_None, False, PStr ''third'')]"

definition ex_safeRef :: "pyobj \<Rightarrow> weakref option" where
  "ex_safeRef r = (if r = rcv1 then Some 7 else None)"

definition ex_connected :: signal where
  "ex_connected = \<lparr>receivers = [((PInt 101, PInt 0), Weak 7),
                                ((PInt 102, PInt 201), Strong rcv2),
                                ((PStr ''third'', PInt 0), Strong rcv3)],
                   providing_args = {}, lock = False\<rparr>"

section \<open>Identity of receivers and senders\<close>

lemma make_id_method:
  "make_id \<lparr>addr = a, im = Some (slf, fn)\<rparr> = PTuple [PInt (int slf), PInt (int fn)]"
  by (simp add: make_id_def)

lemma make_id_plain: "make_id \<lparr>addr = a, im = None\<rparr> = PInt (int a)"
  by (simp add: make_id_def)

text \<open>
  C8. For a bound-method-like receiver the identity is the pair of the identity of
  the instance and the identity of the function. Two accesses of the same method of
  the same instance (objects at different addresses \<open>a1\<close>, \<open>a2\<close>) have the same
  identity and give the same registration key in \<^verbatim>\<open>connect\<close> and \<^verbatim>\<open>disconnect\<close>;
  the same function on two distinct instances gives distinct identities and keys.
\<close>

theorem bound_method_identity:
  "make_id \<lparr>addr = a1, im = Some (slf, fn)\<rparr> = PTuple [PInt (int slf), PInt (int fn)]
   \<and> make_id \<lparr>addr = a1, im = Some (slf, fn)\<rparr> = make_id \<lparr>addr = a2, im = Some (slf, fn)\<rparr>
   \<and> lookup_key \<lparr>addr = a1, im = Some (slf, fn)\<rparr> sender PNone
       = lookup_key \<lparr>addr = a2, im = Some (slf, fn)\<rparr> sender PNone
   \<and> (slf \<noteq> slf' \<longrightarrow>
        make_id \<lparr>addr = a1, im = Some (slf, fn)\<rparr> \<noteq> make_id \<lparr>addr = a2, im = Some (slf', fn)\<rparr>
        \<and> lookup_key \<lparr>addr = a1, im = Some (slf, fn)\<rparr> sender PNone
           \<noteq> lookup_key \<lparr>addr = a2, im = Some (slf', fn)\<rparr> sender PNone)"
  by (simp add: make_id_def lookup_key_def)

theorem bound_method_identity_witness:
  "make_id \<lparr>addr = 10, im = Some (1, 2)\<rparr> = make_id \<lparr>addr = 11, im = Some (1, 2)\<rparr>
   \<and> (1::nat) \<noteq> 3
   \<and> make_id \<lparr>addr = 10, im = Some (1, 2)\<rparr> \<noteq> make_id \<lparr>addr = 11, im = Some (3, 2)\<rparr>"
proof -
  have h: "(1::nat) \<noteq> 3" by simp
  from bound_method_identity [of 10 1 2 11 py_None 3] h show ?thesis by blast
qed

section \<open>The loops of the registry\<close>

lemma key_found_iff: "key_found k rs \<longleftrightarrow> k \<in> fst ` set rs"
  by (induction rs) auto

lemma py_index_nat: "i < length xs \<Longrightarrow> py_index (int i) xs = Some i"
  by (simp add: py_index_def Let_def)

lemma py_getitem_nat: "i < length xs \<Longrightarrow> py_getitem xs (int i) = Some (xs ! i)"
  by (simp add: py_getitem_def py_index_nat)

lemma py_del_nat: "i < length xs \<Longrightarrow> py_del (int i) xs = Some (take i xs @ drop (Suc i) xs)"
  by (simp add: py_del_def py_index_nat)

lemma disconnect_loop_from:
  "i \<le> length rs \<Longrightarrow>
   disconnect_loop k [i..<length rs] rs = Inr (take i rs @ del_first k (drop i rs))"
proof (induction "length rs - i" arbitrary: i)
  case 0
  then show ?case by simp
next
  case (Suc n)
  then have lt: "i < length rs" by simp
  obtain r_key h where e: "rs ! i = (r_key, h)" by (cases "rs ! i")
  have d: "drop i rs = (r_key, h) # drop (Suc i) rs"
    using lt e by (metis Cons_nth_drop_Suc)
  show ?case
  proof (cases "r_key = k")
    case True
    then show ?thesis
      using lt e d by (simp add: upt_conv_Cons py_getitem_nat py_del_nat)
  next
    case False
    have "n = length rs - Suc i" using Suc.hyps(2) by simp
    then have "disconnect_loop k [Suc i..<length rs] rs
                = Inr (take (Suc i) rs @ del_first k (drop (Suc i) rs))"
      using Suc.hyps(1) [of "Suc i"] lt by simp
    then show ?thesis
      using lt e d False
      by (simp add: upt_conv_Cons py_getitem_nat take_Suc_conv_app_nth)
  qed
qed

lemma disconnect_loop_all:
  "disconnect_loop k [0..<length rs] rs = Inr (del_first k rs)"
  using disconnect_loop_from [of 0 rs k] by simp

lemma del_first_absent: "k \<notin> fst ` set rs \<Longrightarrow> del_first k rs = rs"
  by (induction rs) auto

lemma del_first_split:
  "k \<notin> fst ` set xs \<Longrightarrow> del_first k (xs @ (k, h) # ys) = xs @ ys"
  by (induction xs) auto

lemma rev_scan_filter:
  "last_idx - int idx = int n - 1 \<Longrightarrow> n \<le> length rs \<Longrightarrow>
   rev_scan key last_idx idx n rs
     = Inr (filter (\<lambda>e. fst e \<noteq> key) (take n rs) @ drop n rs)"
proof (induction n arbitrary: idx rs)
  case 0
  then show ?case by simp
next
  case (Suc it)
  then have lt: "it < length rs" by simp
  obtain r_key h where e: "rs ! it = (r_key, h)" by (cases "rs ! it")
  have li: "last_idx - int idx = int it" using Suc.prems(1) by simp
  have li': "last_idx - int (Suc idx) = int it - 1" using Suc.prems(1) by simp
  show ?case
  proof (cases "r_key = key")
    case True
    let ?rs' = "take it rs @ drop (Suc it) rs"
    have len: "it \<le> length ?rs'" using lt by simp
    have "rev_scan key last_idx (Suc idx) it ?rs'
            = Inr (filter (\<lambda>e. fst e \<noteq> key) (take it ?rs') @ drop it ?rs')"
      by (rule Suc.IH [OF li' len])
    moreover have "take it ?rs' = take it rs" using lt by simp
    moreover have "drop it ?rs' = drop (Suc it) rs" using lt by simp
    ultimately show ?thesis
      using lt e True li by (simp add: py_del_nat take_Suc_conv_app_nth)
  next
    case False
    have "rev_scan key last_idx (Suc idx) it rs
            = Inr (filter (\<lambda>e. fst e \<noteq> key) (take it rs) @ drop it rs)"
      using Suc.IH [OF li'] lt by simp
    moreover have "drop it rs = (r_key, h) # drop (Suc it) rs"
      using lt e by (metis Cons_nth_drop_Suc)
    ultimately show ?thesis
      using lt e False by (simp add: take_Suc_conv_app_nth)
  qed
qed

lemma rev_scan_pass:
  "rev_scan key (int (length rs) - 1) 0 (length rs) rs = Inr (filter (\<lambda>e. fst e \<noteq> key) rs)"
  using rev_scan_filter [of "int (length rs) - 1" 0 "length rs" rs key] by simp

lemma remove_keys_filter:
  "remove_keys ks rs = Inr (filter (\<lambda>e. fst e \<notin> set ks) rs)"
proof (induction ks arbitrary: rs)
  case Nil
  then show ?case by simp
next
  case (Cons k ks)
  have "filter (\<lambda>e. fst e \<notin> set ks) (filter (\<lambda>e. fst e \<noteq> k) rs)
          = filter (\<lambda>e. fst e \<notin> set (k # ks)) rs"
    by (induction rs) auto
  then show ?case by (simp add: rev_scan_pass Cons.IH del: set_simps)
qed

lemma collect_keys_eq:
  "collect_keys h rs acc = acc @ map fst (filter (\<lambda>e. snd e = h) rs)"
  by (induction rs arbitrary: acc) auto

lemma filter_by_keys_of_handle:
  "distinct (map fst rs) \<Longrightarrow>
   filter (\<lambda>e. fst e \<notin> fst ` {e \<in> set rs. snd e = h}) rs = filter (\<lambda>e. snd e \<noteq> h) rs"
proof (rule filter_cong [OF refl])
  fix e assume d: "distinct (map fst rs)" and m: "e \<in> set rs"
  show "(fst e \<notin> fst ` {e \<in> set rs. snd e = h}) = (snd e \<noteq> h)"
  proof
    assume "fst e \<notin> fst ` {e \<in> set rs. snd e = h}"
    then show "snd e \<noteq> h" using m by auto
  next
    assume n: "snd e \<noteq> h"
    show "fst e \<notin> fst ` {e \<in> set rs. snd e = h}"
    proof
      assume "fst e \<in> fst ` {e \<in> set rs. snd e = h}"
      then obtain e' where e': "e' \<in> set rs" "snd e' = h" "fst e' = fst e" by auto
      from d e'(1) m e'(3) have "e' = e" by (meson eq_key_imp_eq_value prod.collapse prod_eqI distinct_map inj_onD)
      then show False using n e'(2) by simp
    qed
  qed
qed

lemma remove_receiver_free:
  "\<not> lock s \<Longrightarrow>
   remove_receiver h s = Done (s\<lparr>receivers := filter (\<lambda>e. fst e \<notin> fst ` {e \<in> set (receivers s). snd e = h}) (receivers s)\<rparr>)"
  by (simp add: remove_receiver_def acquire_def release_def remove_keys_filter collect_keys_eq)

lemma connect_Done:
  assumes "connect safeRef receiver sender weak uid s = Done s'"
  shows "\<not> lock s \<and> \<not> lock s' \<and>
    (\<exists>h. receivers s' = (if lookup_key receiver sender uid \<in> fst ` set (receivers s) then receivers s
                    else receivers s @ [(lookup_key receiver sender uid, h)]))"
  using assms
  by (auto simp: connect_def Let_def acquire_def release_def key_found_iff split: option.splits if_splits)

lemma connect_free:
  "\<not> lock s \<Longrightarrow> (if weak then map_option Weak (safeRef receiver) else Some (Strong receiver)) = Some h \<Longrightarrow>
   connect safeRef receiver sender weak uid s =
     Done (if lookup_key receiver sender uid \<in> fst ` set (receivers s) then s
           else s\<lparr>receivers := receivers s @ [(lookup_key receiver sender uid, h)]\<rparr>)"
  by (simp add: connect_def Let_def acquire_def release_def key_found_iff)

lemma disconnect_free:
  "\<not> lock s \<Longrightarrow>
   disconnect receiver sender weak uid s
     = Done (s\<lparr>receivers := del_first (lookup_key receiver sender uid) (receivers s)\<rparr>)"
  by (simp add: disconnect_def Let_def acquire_def release_def disconnect_loop_all)

lemma disconnect_Done:
  assumes "disconnect receiver sender weak uid s = Done s'"
  shows "\<not> lock s \<and> \<not> lock s' \<and> receivers s' = del_first (lookup_key receiver sender uid) (receivers s)"
  using assms
  by (auto simp: disconnect_def Let_def acquire_def release_def disconnect_loop_all split: if_splits)

lemma remove_receiver_Done:
  assumes "remove_receiver h s = Done s'"
  shows "\<not> lock s \<and> \<not> lock s' \<and>
    receivers s' = filter (\<lambda>e. fst e \<notin> fst ` {e \<in> set (receivers s). snd e = h}) (receivers s)"
  using assms
  by (auto simp: remove_receiver_def acquire_def release_def remove_keys_filter collect_keys_eq split: if_splits)

lemma set_del_first: "set (del_first k rs) \<subseteq> set rs"
  by (induction rs) (auto split: if_splits)

lemma distinct_del_first:
  "distinct (map fst rs) \<Longrightarrow> distinct (map fst (del_first k rs))"
proof (induction rs)
  case Nil
  then show ?case by simp
next
  case (Cons e rs)
  obtain r_key h where e: "e = (r_key, h)" by (cases e)
  have "r_key \<notin> fst ` set (del_first k rs)"
    using Cons.prems e set_del_first [of k rs] by auto
  then show ?case using Cons e by simp
qed

lemma reachable_inv:
  "reachable s \<Longrightarrow> \<not> lock s \<and> distinct (map fst (receivers s))"
proof (induction rule: reachable.induct)
  case (init args)
  then show ?case by (simp add: Signal_def)
next
  case (conn s safeRef receiver sender weak dispatch_uid s')
  from connect_Done [OF conn.hyps(2)] conn.IH show ?case
    by (auto split: if_splits)
next
  case (disc s receiver sender weak dispatch_uid s')
  from disconnect_Done [OF disc.hyps(2)] disc.IH show ?case
    by (simp add: distinct_del_first)
next
  case (reap s h s')
  from remove_receiver_Done [OF reap.hyps(2)] reap.IH show ?case
    by (simp add: distinct_map_filter)
qed

lemmas ex_defs = rcv1_def rcv2_def rcv3_def snd1_def snd2_def py_None_def make_id_def
  lookup_key_def

lemma reachable_ex_reg: "reachable ex_reg"
proof -
  let ?s1 = "\<lparr>receivers = [((PInt 101, PInt 0), Weak 7)], providing_args = {}, lock = False\<rparr>"
  let ?s2 = "\<lparr>receivers = [((PInt 101, PInt 0), Weak 7), ((PInt 101, PInt 201), Weak 7)],
              providing_args = {}, lock = False\<rparr>"
  have "connect (\<lambda>r. Some 7) rcv1 py_None True PNone (Signal None) = Done ?s1"
    by (simp add: connect_def acquire_def release_def Signal_def ex_defs)
  from reachable.conn [OF reachable.init this] have r1: "reachable ?s1" .
  have "connect (\<lambda>r. Some 7) rcv1 snd1 True PNone ?s1 = Done ?s2"
    by (simp add: connect_def acquire_def release_def ex_defs)
  from reachable.conn [OF r1 this] have r2: "reachable ?s2" .
  have "connect (\<lambda>r. Some 7) rcv2 py_None False PNone ?s2 = Done ex_reg"
    by (simp add: connect_def acquire_def release_def ex_defs ex_reg_def)
  from reachable.conn [OF r2 this] show ?thesis .
qed

section \<open>connect, disconnect and reaping\<close>

text \<open>
  C1. \<^verbatim>\<open>connect\<close> is idempotent per registration key. In every state a signal can
  reach through \<^verbatim>\<open>connect\<close> (and \<^verbatim>\<open>disconnect\<close> and reaping), no two entries of
  \<open>receivers\<close> have the same key; and a \<^verbatim>\<open>connect\<close> whose key is that of an entry
  already there leaves the signal as it was: the old entry and its handle stay, the new
  handle is dropped. (It returns, or \<^verbatim>\<open>safeRef\<close> has refused the receiver before the
  registry was looked at.)
\<close>

theorem connect_idempotent_per_key:
  assumes "reachable s"
  shows "distinct (map fst (receivers s))
    \<and> (lookup_key receiver sender dispatch_uid \<in> fst ` set (receivers s) \<longrightarrow>
         connect safeRef receiver sender weak dispatch_uid s = Done s
         \<or> connect safeRef receiver sender weak dispatch_uid s = Raised TypeError s)"
proof -
  from reachable_inv [OF assms] have l: "\<not> lock s" and d: "distinct (map fst (receivers s))"
    by simp_all
  have "s\<lparr>lock := False\<rparr> = s" using l by simp
  then show ?thesis using d l
    by (auto simp: connect_def Let_def acquire_def release_def key_found_iff split: option.splits)
qed

theorem connect_idempotent_per_key_witness:
  "reachable ex_reg
   \<and> distinct (map fst (receivers ex_reg))
   \<and> lookup_key rcv2 py_None PNone \<in> fst ` set (receivers ex_reg)
   \<and> connect (\<lambda>r. Some 8) rcv2 py_None True PNone ex_reg = Done ex_reg"
proof -
  have k: "lookup_key rcv2 py_None PNone \<in> fst ` set (receivers ex_reg)"
    by (simp add: ex_reg_def ex_defs)
  have n: "connect (\<lambda>r. Some 8) rcv2 py_None True PNone ex_reg \<noteq> Raised TypeError ex_reg"
    by (simp add: connect_def acquire_def ex_reg_def Let_def)
  from connect_idempotent_per_key [OF reachable_ex_reg,
      where receiver = rcv2 and sender = py_None and dispatch_uid = PNone
        and safeRef = "\<lambda>r. Some 8" and weak = True]
    k n reachable_ex_reg
  show ?thesis by blast
qed

text \<open>
  C6. \<^verbatim>\<open>disconnect\<close>, on a signal whose lock is free, returns without error. When no
  entry has the key computed from the arguments the signal is unchanged. When some entry
  has it, the first such entry (the one after a prefix \<open>xs\<close> without the key) is
  removed and every other entry stays, in order.
\<close>

theorem disconnect_removes_first_match:
  assumes "\<not> lock s"
  shows "(lookup_key receiver sender dispatch_uid \<notin> fst ` set (receivers s) \<longrightarrow>
           disconnect receiver sender weak dispatch_uid s = Done s)
    \<and> (receivers s = xs @ (lookup_key receiver sender dispatch_uid, h) # ys
        \<and> lookup_key receiver sender dispatch_uid \<notin> fst ` set xs \<longrightarrow>
           disconnect receiver sender weak dispatch_uid s = Done (s\<lparr>receivers := xs @ ys\<rparr>))"
  using assms by (auto simp: disconnect_free del_first_absent del_first_split)

theorem disconnect_removes_first_match_witness:
  "\<not> lock ex_reg
   \<and> lookup_key rcv3 py_None PNone \<notin> fst ` set (receivers ex_reg)
   \<and> disconnect rcv3 py_None True PNone ex_reg = Done ex_reg
   \<and> disconnect rcv1 snd1 True PNone ex_reg
       = Done (ex_reg\<lparr>receivers := [((PInt 101, PInt 0), Weak 7), ((PInt 102, PInt 0), Strong rcv2)]\<rparr>)"
proof -
  have l: "\<not> lock ex_reg" by (simp add: ex_reg_def)
  have a: "lookup_key rcv3 py_None PNone \<notin> fst ` set (receivers ex_reg)"
    by (simp add: ex_reg_def ex_defs)
  have k: "lookup_key rcv1 snd1 PNone = (PInt 101, PInt 201)"
    by (simp add: ex_defs)
  have b: "receivers ex_reg = [((PInt 101, PInt 0), Weak 7)] @ (lookup_key rcv1 snd1 PNone, Weak 7) # [((PInt 102, PInt 0), Strong rcv2)]
      \<and> lookup_key rcv1 snd1 PNone \<notin> fst ` set [((PInt 101, PInt 0), Weak 7)]"
    by (simp add: ex_reg_def k)
  from disconnect_removes_first_match [OF l,
      where receiver = rcv3 and sender = py_None and dispatch_uid = PNone and weak = True] a
  have 1: "disconnect rcv3 py_None True PNone ex_reg = Done ex_reg" by blast
  from disconnect_removes_first_match [OF l,
      where receiver = rcv1 and sender = snd1 and dispatch_uid = PNone and weak = True
        and xs = "[((PInt 101, PInt 0), Weak 7)]" and h = "Weak 7"
        and ys = "[((PInt 102, PInt 0), Strong rcv2)]"] b
  have 2: "disconnect rcv1 snd1 True PNone ex_reg
       = Done (ex_reg\<lparr>receivers := [((PInt 101, PInt 0), Weak 7)] @ [((PInt 102, PInt 0), Strong rcv2)]\<rparr>)" by blast
  from l a 1 2 show ?thesis by simp
qed

text \<open>
  C7. In every reachable state, \<^verbatim>\<open>_remove_receiver(h)\<close> returns and leaves exactly the
  entries whose handle is not \<open>h\<close>, in their order: no entry with handle \<open>h\<close> remains,
  however many there were, and every entry with another handle is still there.
\<close>

theorem remove_receiver_removes_handle:
  assumes "reachable s"
  shows "remove_receiver h s = Done (s\<lparr>receivers := filter (\<lambda>e. snd e \<noteq> h) (receivers s)\<rparr>)
    \<and> (\<forall>s'. remove_receiver h s = Done s' \<longrightarrow>
          (\<forall>e \<in> set (receivers s'). snd e \<noteq> h)
          \<and> (\<forall>e \<in> set (receivers s). snd e \<noteq> h \<longrightarrow> e \<in> set (receivers s')))"
proof -
  from reachable_inv [OF assms] have l: "\<not> lock s" and d: "distinct (map fst (receivers s))"
    by simp_all
  have "remove_receiver h s = Done (s\<lparr>receivers := filter (\<lambda>e. snd e \<noteq> h) (receivers s)\<rparr>)"
    using remove_receiver_free [OF l, of h] filter_by_keys_of_handle [OF d, of h] by simp
  then show ?thesis by auto
qed

theorem remove_receiver_removes_handle_witness:
  "reachable ex_reg
   \<and> remove_receiver (Weak 7) ex_reg
       = Done (ex_reg\<lparr>receivers := [((PInt 102, PInt 0), Strong rcv2)]\<rparr>)"
proof -
  have "filter (\<lambda>e. snd e \<noteq> Weak 7) (receivers ex_reg) = [((PInt 102, PInt 0), Strong rcv2)]"
    by (simp add: ex_reg_def)
  with remove_receiver_removes_handle [OF reachable_ex_reg, of "Weak 7"] reachable_ex_reg
  show ?thesis by simp
qed

section \<open>The loops of dispatch\<close>

lemma live_loop_eq:
  "live_loop resolve k rs acc
     = acc @ List.map_filter (resolve_handle resolve) (map snd (filter (sender_matches k) rs))"
proof (induction rs arbitrary: acc)
  case Nil
  then show ?case by (simp add: map_filter_simps)
next
  case (Cons e rs)
  obtain rk sk h where e: "e = ((rk, sk), h)" by (cases e) auto
  show ?case
  proof (cases "sk = none_senderkey \<or> sk = k")
    case True
    then show ?thesis using e Cons.IH
      by (cases h) (auto simp: sender_matches_def map_filter_simps split: option.splits)
  next
    case False
    then show ?thesis using e Cons.IH by (simp add: sender_matches_def)
  qed
qed

lemma live_receivers_eq:
  "live_receivers resolve s k
     = List.map_filter (resolve_handle resolve) (map snd (filter (sender_matches k) (receivers s)))"
  by (simp add: live_receivers_def live_loop_eq)

lemma live_receivers_append:
  "live_receivers resolve (s\<lparr>receivers := receivers s @ [e]\<rparr>) k
     = live_receivers resolve s k @
       (if sender_matches k e then (case resolve_handle resolve (snd e) of Some r \<Rightarrow> [r] | None \<Rightarrow> []) else [])"
  by (simp add: live_receivers_eq map_filter_def split: option.splits)

lemma send_eq_loop:
  "send resolve invoke s sender named w
     = send_loop (\<lambda>r. invoke r sender named) (live_receivers resolve s (make_id sender)) [] w"
  by (simp add: send_def live_receivers_def)

lemma send_robust_eq_loop:
  "send_robust resolve invoke s sender named w
     = send_robust_loop (\<lambda>r. invoke r sender named) (live_receivers resolve s (make_id sender)) [] w"
  by (simp add: send_robust_def live_receivers_def)

lemma outcomes_append:
  "outcomes call (xs @ ys) w =
     (case outcomes call xs w of (o1, w1) \<Rightarrow>
        (case outcomes call ys w1 of (o2, w2) \<Rightarrow> (o1 @ o2, w2)))"
  by (induction xs arbitrary: w) (auto split: prod.splits)

lemma length_outcomes: "length (fst (outcomes call rs w)) = length rs"
proof (induction rs arbitrary: w)
  case Nil
  then show ?case by simp
next
  case (Cons r rs)
  obtain out w1 where c: "call r w = (out, w1)" by (cases "call r w")
  obtain outs w2 where o: "outcomes call rs w1 = (outs, w2)" by (cases "outcomes call rs w1")
  from Cons.IH [of w1] o show ?case using c by simp
qed

lemma send_loop_ok:
  "fst (outcomes call rs w) = map Return vs \<Longrightarrow>
   send_loop call rs acc w = (Inr (acc @ zip rs vs), snd (outcomes call rs w))"
proof (induction rs arbitrary: vs acc w)
  case Nil
  then show ?case by simp
next
  case (Cons r rs)
  obtain out w1 where c: "call r w = (out, w1)" by (cases "call r w")
  obtain outs w2 where o: "outcomes call rs w1 = (outs, w2)" by (cases "outcomes call rs w1")
  from Cons.prems c o obtain v vs' where vs: "vs = v # vs'" "out = Return v" "outs = map Return vs'"
    by (cases vs) auto
  from Cons.IH [of w1 vs' "acc @ [(r, v)]"] o vs
  have "send_loop call rs (acc @ [(r, v)]) w1 = (Inr (acc @ (r, v) # zip rs vs'), w2)" by simp
  then show ?case using c o vs by simp
qed

lemma send_loop_raise:
  "fst (outcomes call xs w) = map Return vs \<Longrightarrow>
   call r (snd (outcomes call xs w)) = (Raise e, w') \<Longrightarrow>
   send_loop call (xs @ r # ys) acc w = (Inl e, w')"
proof (induction xs arbitrary: vs acc w)
  case Nil
  then show ?case by simp
next
  case (Cons x xs)
  obtain out w1 where c: "call x w = (out, w1)" by (cases "call x w")
  obtain outs w2 where o: "outcomes call xs w1 = (outs, w2)" by (cases "outcomes call xs w1")
  from Cons.prems(1) c o obtain v vs' where vs: "vs = v # vs'" "out = Return v" "outs = map Return vs'"
    by (cases vs) auto
  from Cons.IH [of w1 vs' "acc @ [(x, v)]"] o vs Cons.prems(2) c
  have "send_loop call (xs @ r # ys) (acc @ [(x, v)]) w1 = (Inl e, w')" by simp
  then show ?case using c vs by simp
qed

lemma send_loop_receivers:
  "send_loop call rs acc w = (Inr resp, w') \<Longrightarrow> map fst resp = map fst acc @ rs"
proof (induction rs arbitrary: acc w)
  case Nil
  then show ?case by simp
next
  case (Cons r rs)
  obtain out w1 where c: "call r w = (out, w1)" by (cases "call r w")
  show ?case
  proof (cases out)
    case (Return v)
    with Cons.prems c have "send_loop call rs (acc @ [(r, v)]) w1 = (Inr resp, w')" by simp
    from Cons.IH [OF this] show ?thesis by simp
  next
    case (Raise e)
    with Cons.prems c show ?thesis by simp
  qed
qed

lemma send_robust_loop_ok:
  "list_all catchable (fst (outcomes call rs w)) \<Longrightarrow>
   send_robust_loop call rs acc w
     = (Inr (acc @ zip rs (map response_of (fst (outcomes call rs w)))), snd (outcomes call rs w))"
proof (induction rs arbitrary: acc w)
  case Nil
  then show ?case by simp
next
  case (Cons r rs)
  obtain out w1 where c: "call r w = (out, w1)" by (cases "call r w")
  obtain outs w2 where o: "outcomes call rs w1 = (outs, w2)" by (cases "outcomes call rs w1")
  from Cons.prems c o have a: "catchable out" "list_all catchable (fst (outcomes call rs w1))"
    by simp_all
  from Cons.IH [OF a(2), of "acc @ [(r, response_of out)]"] o
  have "send_robust_loop call rs (acc @ [(r, response_of out)]) w1
          = (Inr (acc @ (r, response_of out) # zip rs (map response_of outs)), w2)" by simp
  then show ?case using c o a(1) by (cases out) simp_all
qed

lemma send_robust_loop_raise:
  "list_all catchable (fst (outcomes call xs w)) \<Longrightarrow>
   call r (snd (outcomes call xs w)) = (Raise e, w') \<Longrightarrow> \<not> is_Exception e \<Longrightarrow>
   send_robust_loop call (xs @ r # ys) acc w = (Inl e, w')"
proof (induction xs arbitrary: acc w)
  case Nil
  then show ?case by simp
next
  case (Cons x xs)
  obtain out w1 where c: "call x w = (out, w1)" by (cases "call x w")
  obtain outs w2 where o: "outcomes call xs w1 = (outs, w2)" by (cases "outcomes call xs w1")
  from Cons.prems(1) c o have a: "catchable out" "list_all catchable (fst (outcomes call xs w1))"
    by simp_all
  from Cons.prems(2) c o have b: "call r (snd (outcomes call xs w1)) = (Raise e, w')" by simp
  from Cons.IH [OF a(2) b Cons.prems(3), of "acc @ [(x, response_of out)]"]
  have "send_robust_loop call (xs @ r # ys) (acc @ [(x, response_of out)]) w1 = (Inl e, w')" .
  then show ?case using c a(1) by (cases out) simp_all
qed

lemma all_return_catchable:
  "outs = map Return vs \<Longrightarrow> list_all catchable outs \<and> map response_of outs = vs"
  by (induction vs arbitrary: outs) auto

lemma ex_live: "live_receivers ex_resolve ex_three (make_id snd1) = [rcv1, rcv2, rcv3]"
  by (simp add: live_receivers_def ex_three_def ex_resolve_def none_senderkey_def ex_defs)

lemma ex_rcv_neq: "rcv1 \<noteq> rcv2" "rcv1 \<noteq> rcv3" "rcv2 \<noteq> rcv3" "rcv2 \<noteq> rcv1" "rcv3 \<noteq> rcv1" "rcv3 \<noteq> rcv2"
  by (simp_all add: rcv1_def rcv2_def rcv3_def)

lemma ex_outcomes:
  "outcomes (\<lambda>r. ex_invoke second r snd1 ()) [rcv1, rcv2, rcv3] []
     = ([Return (PStr ''a''), second, Return (PStr ''b'')], [rcv1, rcv2, rcv3])"
  by (simp add: ex_invoke_def ex_rcv_neq)

lemma ex_outcomes1:
  "outcomes (\<lambda>r. ex_invoke second r snd1 ()) [rcv1] [] = ([Return (PStr ''a'')], [rcv1])"
  by (simp add: ex_invoke_def)

lemma connect_all_order:
  assumes "\<not> lock s"
    and "distinct (map key_of cs)"
    and "set (map key_of cs) \<inter> fst ` set (receivers s) = {}"
    and "\<forall>(r, sd, wk, uid) \<in> set cs.
           (make_id sd = none_senderkey \<or> make_id sd = senderkey)
           \<and> (wk \<longrightarrow> (\<exists>wr. safeRef r = Some wr \<and> resolve wr = Some r))"
  shows "\<exists>s' es. connect_all safeRef cs s = Done s'
      \<and> receivers s' = receivers s @ es \<and> map fst es = map key_of cs
      \<and> live_receivers resolve s' senderkey = live_receivers resolve s senderkey @ map fst cs"
  using assms
proof (induction cs arbitrary: s)
  case Nil
  then show ?case by simp
next
  case (Cons c cs)
  obtain r sd wk uid where c: "c = (r, sd, wk, uid)" by (cases c) auto
  let ?k = "lookup_key r sd uid"
  from Cons.prems(4) c obtain h where
    h: "(if wk then map_option Weak (safeRef r) else Some (Strong r)) = Some h"
    and rh: "resolve_handle resolve h = Some r"
    and sm: "make_id sd = none_senderkey \<or> make_id sd = senderkey"
    by (cases wk) auto
  have knew: "?k \<notin> fst ` set (receivers s)"
    using Cons.prems(3) c by (auto simp: key_of_def)
  let ?s1 = "s\<lparr>receivers := receivers s @ [(?k, h)]\<rparr>"
  have c1: "connect safeRef r sd wk uid s = Done ?s1"
    using connect_free [where safeRef = safeRef and receiver = r and weak = wk and h = h
        and s = s and sender = sd and uid = uid] Cons.prems(1) h knew by simp
  have l1: "live_receivers resolve ?s1 senderkey = live_receivers resolve s senderkey @ [r]"
    using sm rh by (simp add: live_receivers_append sender_matches_def lookup_key_def)
  have p1: "\<not> lock ?s1" using Cons.prems(1) by simp
  have p2: "distinct (map key_of cs)" using Cons.prems(2) by simp
  have p3: "set (map key_of cs) \<inter> fst ` set (receivers ?s1) = {}"
    using Cons.prems(2,3) c by (auto simp: key_of_def)
  have p4: "\<forall>(r, sd, wk, uid) \<in> set cs.
           (make_id sd = none_senderkey \<or> make_id sd = senderkey)
           \<and> (wk \<longrightarrow> (\<exists>wr. safeRef r = Some wr \<and> resolve wr = Some r))"
    using Cons.prems(4) by simp
  from Cons.IH [OF p1 p2 p3 p4] obtain s' es where
    i: "connect_all safeRef cs ?s1 = Done s'" "receivers s' = receivers ?s1 @ es"
       "map fst es = map key_of cs"
       "live_receivers resolve s' senderkey = live_receivers resolve ?s1 senderkey @ map fst cs"
    by blast
  have "connect_all safeRef (c # cs) s = Done s'" using c c1 i(1) by simp
  moreover have "receivers s' = receivers s @ ((?k, h) # es)" using i(2) by simp
  moreover have "map fst ((?k, h) # es) = map key_of (c # cs)" using i(3) c by (simp add: key_of_def)
  moreover have "live_receivers resolve s' senderkey
                  = live_receivers resolve s senderkey @ map fst (c # cs)"
    using i(4) l1 c by simp
  ultimately show ?case by blast
qed

section \<open>send and send_robust\<close>

text \<open>
  C2. \<^verbatim>\<open>send\<close> is fail-fast. Let \<open>live\<close> be the live receivers for the sender. If the
  receivers \<open>xs\<close> before \<open>r\<close> all return and \<open>r\<close> raises \<open>e\<close>, then \<open>e\<close> itself leaves
  \<^verbatim>\<open>send\<close>, and the world is the one \<open>r\<close> left: the receivers \<open>ys\<close> after \<open>r\<close>, whatever
  they are, have not been called. If every live receiver returns, \<^verbatim>\<open>send\<close> returns the
  pairs (receiver, returned value) of all of them, in order.
\<close>

theorem send_fail_fast:
  assumes "live = live_receivers resolve s (make_id sender)"
    and "call = (\<lambda>r. invoke r sender named)"
  shows "(live = xs @ r # ys \<and> fst (outcomes call xs w) = map Return vs
           \<and> call r (snd (outcomes call xs w)) = (Raise e, w')
          \<longrightarrow> send resolve invoke s sender named w = (Inl e, w'))
    \<and> (fst (outcomes call live w) = map Return vs
          \<longrightarrow> send resolve invoke s sender named w
                = (Inr (zip live vs), snd (outcomes call live w)))"
  using assms send_loop_raise [of call xs w vs r e w' ys "[]"] send_loop_ok [of call live w vs "[]"]
  by (auto simp: send_eq_loop)

theorem send_fail_fast_witness:
  "send ex_resolve (ex_invoke (Raise (ExceptionSub ''ValueError''))) ex_three snd1 () []
     = (Inl (ExceptionSub ''ValueError''), [rcv1, rcv2])
   \<and> send ex_resolve (ex_invoke (Return (PStr ''c''))) ex_three snd1 () []
     = (Inr [(rcv1, PStr ''a''), (rcv2, PStr ''c''), (rcv3, PStr ''b'')], [rcv1, rcv2, rcv3])"
proof -
  let ?bad = "ex_invoke (Raise (ExceptionSub ''ValueError''))"
  let ?ok = "ex_invoke (Return (PStr ''c''))"
  have l: "[rcv1, rcv2, rcv3] = live_receivers ex_resolve ex_three (make_id snd1)"
    by (simp add: ex_live)
  have 1: "[rcv1, rcv2, rcv3] = [rcv1] @ rcv2 # [rcv3]
      \<and> fst (outcomes (\<lambda>r. ?bad r snd1 ()) [rcv1] []) = map Return [PStr ''a'']
      \<and> ?bad rcv2 snd1 () (snd (outcomes (\<lambda>r. ?bad r snd1 ()) [rcv1] []))
          = (Raise (ExceptionSub ''ValueError''), [rcv1, rcv2])"
    unfolding ex_outcomes1 by (simp add: ex_invoke_def ex_rcv_neq)
  have 2: "fst (outcomes (\<lambda>r. ?ok r snd1 ()) [rcv1, rcv2, rcv3] [])
             = map Return [PStr ''a'', PStr ''c'', PStr ''b'']"
    unfolding ex_outcomes by simp
  from send_fail_fast [OF l refl, where invoke = ?bad and named = "()" and w = "[]"
      and xs = "[rcv1]" and r = rcv2 and ys = "[rcv3]" and vs = "[PStr ''a'']"
      and e = "ExceptionSub ''ValueError''" and w' = "[rcv1, rcv2]"] 1
  have a: "send ex_resolve ?bad ex_three snd1 () [] = (Inl (ExceptionSub ''ValueError''), [rcv1, rcv2])"
    by blast
  from send_fail_fast [OF l refl, where invoke = ?ok and named = "()" and w = "[]"
      and vs = "[PStr ''a'', PStr ''c'', PStr ''b'']"] 2
  have b: "send ex_resolve ?ok ex_three snd1 () []
     = (Inr (zip [rcv1, rcv2, rcv3] [PStr ''a'', PStr ''c'', PStr ''b'']),
        snd (outcomes (\<lambda>r. ?ok r snd1 ()) [rcv1, rcv2, rcv3] []))"
    by blast
  from a b show ?thesis unfolding ex_outcomes by simp
qed

text \<open>
  C3 as stated does not hold: \<^verbatim>\<open>except Exception\<close> does not catch an exception that is
  not an instance of \<^verbatim>\<open>Exception\<close>. With receivers that return, raise \<^verbatim>\<open>SystemExit\<close>
  and return, \<^verbatim>\<open>send_robust\<close> lets \<^verbatim>\<open>SystemExit\<close> through and the third receiver is
  not called.
\<close>

theorem send_robust_propagates_counterexample:
  "send_robust ex_resolve (ex_invoke (Raise SystemExit)) ex_three snd1 () []
     = (Inl SystemExit, [rcv1, rcv2])"
  by (simp add: send_robust_eq_loop ex_live ex_invoke_def ex_rcv_neq)

text \<open>
  C3, amended. When every exception raised by a live receiver is an instance of
  \<^verbatim>\<open>Exception\<close>, \<^verbatim>\<open>send_robust\<close> calls every live receiver in order, lets no exception
  through, and returns exactly one pair per live receiver: the returned value, or the
  exception object itself. An exception that is not an instance of \<^verbatim>\<open>Exception\<close>
  leaves \<^verbatim>\<open>send_robust\<close> at the receiver that raised it.
\<close>

theorem send_robust_isolates:
  assumes "live = live_receivers resolve s (make_id sender)"
    and "call = (\<lambda>r. invoke r sender named)"
  shows "(list_all catchable (fst (outcomes call live w))
          \<longrightarrow> send_robust resolve invoke s sender named w
                = (Inr (zip live (map response_of (fst (outcomes call live w)))),
                   snd (outcomes call live w)))
    \<and> (live = xs @ r # ys \<and> list_all catchable (fst (outcomes call xs w))
           \<and> call r (snd (outcomes call xs w)) = (Raise e, w') \<and> \<not> is_Exception e
          \<longrightarrow> send_robust resolve invoke s sender named w = (Inl e, w'))"
  using assms send_robust_loop_ok [of call live w "[]"]
    send_robust_loop_raise [of call xs w r e w' ys "[]"]
  by (auto simp: send_robust_eq_loop)

theorem send_robust_isolates_witness:
  "send_robust ex_resolve (ex_invoke (Raise (ExceptionSub ''Err''))) ex_three snd1 () []
     = (Inr [(rcv1, PStr ''a''), (rcv2, PErr (ExceptionSub ''Err'')), (rcv3, PStr ''b'')],
        [rcv1, rcv2, rcv3])"
proof -
  let ?err = "ex_invoke (Raise (ExceptionSub ''Err''))"
  have l: "[rcv1, rcv2, rcv3] = live_receivers ex_resolve ex_three (make_id snd1)"
    by (simp add: ex_live)
  have 1: "list_all catchable (fst (outcomes (\<lambda>r. ?err r snd1 ()) [rcv1, rcv2, rcv3] []))"
    unfolding ex_outcomes by simp
  from send_robust_isolates [OF l refl, where invoke = ?err and named = "()" and w = "[]"] 1
  have "send_robust ex_resolve ?err ex_three snd1 () []
     = (Inr (zip [rcv1, rcv2, rcv3] (map response_of (fst (outcomes (\<lambda>r. ?err r snd1 ()) [rcv1, rcv2, rcv3] [])))),
        snd (outcomes (\<lambda>r. ?err r snd1 ()) [rcv1, rcv2, rcv3] []))"
    by blast
  then show ?thesis unfolding ex_outcomes by simp
qed

text \<open>
  C10. When every live receiver returns, \<^verbatim>\<open>send\<close> and \<^verbatim>\<open>send_robust\<close> give the same
  list of pairs (and leave the same world); on an empty registry both return the
  empty list.
\<close>

theorem send_equals_send_robust:
  assumes "live = live_receivers resolve s (make_id sender)"
    and "call = (\<lambda>r. invoke r sender named)"
  shows "(fst (outcomes call live w) = map Return vs
          \<longrightarrow> send resolve invoke s sender named w = send_robust resolve invoke s sender named w)
    \<and> (receivers s = []
          \<longrightarrow> send resolve invoke s sender named w = (Inr [], w)
            \<and> send_robust resolve invoke s sender named w = (Inr [], w))"
proof -
  have "send resolve invoke s sender named w = send_robust resolve invoke s sender named w"
    if h: "fst (outcomes call live w) = map Return vs"
  proof -
    from all_return_catchable [OF h]
    have c: "list_all catchable (fst (outcomes call live w))"
      and m: "map response_of (fst (outcomes call live w)) = vs" by simp_all
    show ?thesis
      using assms send_loop_ok [OF h, of "[]"] send_robust_loop_ok [OF c, of "[]"] m
      by (simp add: send_eq_loop send_robust_eq_loop)
  qed
  then show ?thesis by (simp add: send_def send_robust_def)
qed

theorem send_equals_send_robust_witness:
  "send ex_resolve (ex_invoke (Return (PStr ''c''))) ex_three snd1 () []
     = send_robust ex_resolve (ex_invoke (Return (PStr ''c''))) ex_three snd1 () []
   \<and> receivers (Signal None) = []
   \<and> send ex_resolve (ex_invoke (Return (PStr ''c''))) (Signal None) snd1 () [] = (Inr [], [])
   \<and> send_robust ex_resolve (ex_invoke (Return (PStr ''c''))) (Signal None) snd1 () [] = (Inr [], [])"
proof -
  let ?ok = "ex_invoke (Return (PStr ''c''))"
  have l: "[rcv1, rcv2, rcv3] = live_receivers ex_resolve ex_three (make_id snd1)"
    by (simp add: ex_live)
  have 2: "fst (outcomes (\<lambda>r. ?ok r snd1 ()) [rcv1, rcv2, rcv3] [])
             = map Return [PStr ''a'', PStr ''c'', PStr ''b'']"
    unfolding ex_outcomes by simp
  have e: "receivers (Signal None) = []" by (simp add: Signal_def)
  from send_equals_send_robust [OF l refl, where invoke = ?ok and named = "()" and w = "[]"
      and vs = "[PStr ''a'', PStr ''c'', PStr ''b'']"] 2
  have a: "send ex_resolve ?ok ex_three snd1 () [] = send_robust ex_resolve ?ok ex_three snd1 () []"
    by blast
  from send_equals_send_robust [OF refl refl, where s = "Signal None" and resolve = ex_resolve
      and invoke = ?ok and sender = snd1 and named = "()" and w = "[]"] e
  have b: "send ex_resolve ?ok (Signal None) snd1 () [] = (Inr [], [])
            \<and> send_robust ex_resolve ?ok (Signal None) snd1 () [] = (Inr [], [])"
    by blast
  from a b e show ?thesis by simp
qed

section \<open>The live receivers\<close>

text \<open>
  C4 as stated does not hold: an entry whose stored sender is the sentinel, held through
  a weak reference whose target is gone, is not among the live receivers, and \<^verbatim>\<open>send\<close>
  calls nothing.
\<close>

theorem live_receivers_dead_counterexample:
  "connect (\<lambda>r. Some 9) rcv1 py_None True PNone (Signal None) = Done ex_dead
   \<and> receivers ex_dead = [((make_id rcv1, none_senderkey), Weak 9)]
   \<and> ex_resolve 9 = None
   \<and> live_receivers ex_resolve ex_dead (make_id snd1) = []
   \<and> send ex_resolve (ex_invoke (Return (PStr ''c''))) ex_dead snd1 () [] = (Inr [], [])"
  by (simp add: connect_def acquire_def release_def Signal_def ex_dead_def ex_resolve_def
      live_receivers_def send_def none_senderkey_def ex_defs)

text \<open>
  C4, amended. The live receivers are exactly the entries whose stored sender is the
  sentinel or the sender of the dispatch and whose receiver resolves (held strongly, or
  through a weak reference whose target is still there), in registry order. A
  \<^verbatim>\<open>connect\<close> with a sender whose identity is neither the sentinel nor that of the
  publishing sender changes nothing for that sender's \<^verbatim>\<open>send\<close>; a \<^verbatim>\<open>connect\<close> with
  \<^verbatim>\<open>sender=None\<close> that adds an entry whose receiver resolves adds the receiver to the
  live receivers of every sender.
\<close>

theorem live_receivers_sender_filter:
  "live_receivers resolve s senderkey
     = List.map_filter (resolve_handle resolve)
         (map snd (filter (sender_matches senderkey) (receivers s)))
   \<and> (connect safeRef receiver reg_sender weak dispatch_uid s = Done s'
        \<and> make_id reg_sender \<noteq> make_id pub_sender \<and> make_id reg_sender \<noteq> none_senderkey
       \<longrightarrow> live_receivers resolve s' (make_id pub_sender) = live_receivers resolve s (make_id pub_sender)
         \<and> send resolve invoke s' pub_sender named w = send resolve invoke s pub_sender named w)
   \<and> (connect safeRef receiver py_None weak dispatch_uid s = Done s'
        \<and> lookup_key receiver py_None dispatch_uid \<notin> fst ` set (receivers s)
        \<and> (weak \<longrightarrow> (\<exists>wr. safeRef receiver = Some wr \<and> resolve wr = Some receiver))
       \<longrightarrow> live_receivers resolve s' senderkey = live_receivers resolve s senderkey @ [receiver])"
proof (intro conjI impI)
  show "live_receivers resolve s senderkey
     = List.map_filter (resolve_handle resolve)
         (map snd (filter (sender_matches senderkey) (receivers s)))"
    by (rule live_receivers_eq)
next
  assume a: "connect safeRef receiver reg_sender weak dispatch_uid s = Done s'
        \<and> make_id reg_sender \<noteq> make_id pub_sender \<and> make_id reg_sender \<noteq> none_senderkey"
  from connect_Done [of safeRef receiver reg_sender weak dispatch_uid s s'] a
  obtain h where r: "receivers s' = (if lookup_key receiver reg_sender dispatch_uid \<in> fst ` set (receivers s)
      then receivers s else receivers s @ [(lookup_key receiver reg_sender dispatch_uid, h)])"
    by blast
  have "\<not> sender_matches (make_id pub_sender) (lookup_key receiver reg_sender dispatch_uid, h)"
    using a by (simp add: sender_matches_def lookup_key_def)
  then show l: "live_receivers resolve s' (make_id pub_sender) = live_receivers resolve s (make_id pub_sender)"
    using r by (simp add: live_receivers_eq)
  then show "send resolve invoke s' pub_sender named w = send resolve invoke s pub_sender named w"
    by (simp add: send_eq_loop)
next
  assume a: "connect safeRef receiver py_None weak dispatch_uid s = Done s'
        \<and> lookup_key receiver py_None dispatch_uid \<notin> fst ` set (receivers s)
        \<and> (weak \<longrightarrow> (\<exists>wr. safeRef receiver = Some wr \<and> resolve wr = Some receiver))"
  then have "\<exists>h. receivers s' = receivers s @ [(lookup_key receiver py_None dispatch_uid, h)]
      \<and> resolve_handle resolve h = Some receiver"
    by (auto simp: connect_def Let_def acquire_def release_def key_found_iff
        split: option.splits if_splits)
  then obtain h where r: "receivers s' = receivers s @ [(lookup_key receiver py_None dispatch_uid, h)]"
    and h: "resolve_handle resolve h = Some receiver" by blast
  have "sender_matches senderkey (lookup_key receiver py_None dispatch_uid, h)"
    by (simp add: sender_matches_def lookup_key_def none_senderkey_def)
  then show "live_receivers resolve s' senderkey = live_receivers resolve s senderkey @ [receiver]"
    using r h by (simp add: live_receivers_eq map_filter_def)
qed

theorem live_receivers_sender_filter_witness:
  "connect ex_safeRef rcv1 snd2 False PNone ex_three
      = Done (ex_three\<lparr>receivers := receivers ex_three @ [((PInt 101, PInt 202), Strong rcv1)]\<rparr>)
   \<and> make_id snd2 \<noteq> make_id snd1 \<and> make_id snd2 \<noteq> none_senderkey
   \<and> live_receivers ex_resolve
        (ex_three\<lparr>receivers := receivers ex_three @ [((PInt 101, PInt 202), Strong rcv1)]\<rparr>)
        (make_id snd1) = [rcv1, rcv2, rcv3]
   \<and> connect ex_safeRef rcv2 py_None False PNone ex_three
      = Done (ex_three\<lparr>receivers := receivers ex_three @ [((PInt 102, PInt 0), Strong rcv2)]\<rparr>)
   \<and> lookup_key rcv2 py_None PNone \<notin> fst ` set (receivers ex_three)
   \<and> live_receivers ex_resolve
        (ex_three\<lparr>receivers := receivers ex_three @ [((PInt 102, PInt 0), Strong rcv2)]\<rparr>)
        (make_id snd2) = [rcv1, rcv3, rcv2]"
proof -
  let ?s1 = "ex_three\<lparr>receivers := receivers ex_three @ [((PInt 101, PInt 202), Strong rcv1)]\<rparr>"
  let ?s2 = "ex_three\<lparr>receivers := receivers ex_three @ [((PInt 102, PInt 0), Strong rcv2)]\<rparr>"
  have c1: "connect ex_safeRef rcv1 snd2 False PNone ex_three = Done ?s1"
    by (simp add: connect_def acquire_def release_def ex_three_def ex_defs)
  have n: "make_id snd2 \<noteq> make_id snd1 \<and> make_id snd2 \<noteq> none_senderkey"
    by (simp add: none_senderkey_def ex_defs)
  have c2: "connect ex_safeRef rcv2 py_None False PNone ex_three = Done ?s2"
    by (simp add: connect_def acquire_def release_def ex_three_def ex_defs)
  have k: "lookup_key rcv2 py_None PNone \<notin> fst ` set (receivers ex_three)"
    by (simp add: ex_three_def ex_defs)
  have l2: "live_receivers ex_resolve ex_three (make_id snd2) = [rcv1, rcv3]"
    by (simp add: live_receivers_def ex_three_def ex_resolve_def none_senderkey_def ex_defs)
  from live_receivers_sender_filter [where safeRef = ex_safeRef and receiver = rcv1 and reg_sender = snd2
      and weak = False and dispatch_uid = PNone and s = ex_three and s' = ?s1 and pub_sender = snd1
      and resolve = ex_resolve and senderkey = "make_id snd1"
      and invoke = "ex_invoke (Return PNone)" and named = "()" and w = "[]"] c1 n
  have a: "live_receivers ex_resolve ?s1 (make_id snd1) = live_receivers ex_resolve ex_three (make_id snd1)"
    by blast
  from live_receivers_sender_filter [where safeRef = ex_safeRef and receiver = rcv2
      and weak = False and dispatch_uid = PNone and s = ex_three and s' = ?s2
      and resolve = ex_resolve and senderkey = "make_id snd2" and reg_sender = snd1
      and pub_sender = snd1 and invoke = "ex_invoke (Return PNone)" and named = "()"
      and w = "[]"] c2 k
  have b: "live_receivers ex_resolve ?s2 (make_id snd2)
            = live_receivers ex_resolve ex_three (make_id snd2) @ [rcv2]"
    by blast
  from a b c1 c2 n k show ?thesis by (simp add: ex_live l2)
qed

text \<open>
  C5. Dispatch order is subscription order. A sequence of \<^verbatim>\<open>connect\<close> calls with new,
  pairwise distinct keys appends its entries to the registry in the order of the calls;
  when they all match the sender and resolve, the live receivers are those of before
  followed by the connected receivers in that order, and what \<^verbatim>\<open>send\<close> returns lists
  the receivers in that order.
\<close>

theorem dispatch_order_is_subscription_order:
  assumes "\<not> lock s"
    and "distinct (map key_of cs)"
    and "set (map key_of cs) \<inter> fst ` set (receivers s) = {}"
    and "\<forall>(r, sd, wk, uid) \<in> set cs.
           (make_id sd = none_senderkey \<or> make_id sd = make_id sender)
           \<and> (wk \<longrightarrow> (\<exists>wr. safeRef r = Some wr \<and> resolve wr = Some r))"
  shows "\<exists>s' es. connect_all safeRef cs s = Done s'
      \<and> receivers s' = receivers s @ es \<and> map fst es = map key_of cs
      \<and> live_receivers resolve s' (make_id sender)
          = live_receivers resolve s (make_id sender) @ map fst cs
      \<and> (\<forall>resp w'. send resolve invoke s' sender named w = (Inr resp, w')
            \<longrightarrow> map fst resp = live_receivers resolve s (make_id sender) @ map fst cs)"
proof -
  from connect_all_order [OF assms] obtain s' es where
    i: "connect_all safeRef cs s = Done s'" "receivers s' = receivers s @ es"
       "map fst es = map key_of cs"
       "live_receivers resolve s' (make_id sender)
          = live_receivers resolve s (make_id sender) @ map fst cs"
    by blast
  have "map fst resp = live_receivers resolve s (make_id sender) @ map fst cs"
    if "send resolve invoke s' sender named w = (Inr resp, w')" for resp w'
    using that send_loop_receivers [of "\<lambda>r. invoke r sender named"
        "live_receivers resolve s' (make_id sender)" "[]" w resp w'] i(4)
    by (simp add: send_eq_loop)
  with i show ?thesis by blast
qed

theorem dispatch_order_is_subscription_order_witness:
  "\<not> lock (Signal None)
   \<and> distinct (map key_of ex_calls)
   \<and> set (map key_of ex_calls) \<inter> fst ` set (receivers (Signal None)) = {}
   \<and> connect_all ex_safeRef ex_calls (Signal None) = Done ex_connected
   \<and> live_receivers ex_resolve ex_connected (make_id snd1) = [rcv1, rcv2, rcv3]
   \<and> send ex_resolve (ex_invoke (Return (PStr ''c''))) ex_connected snd1 () []
       = (Inr [(rcv1, PStr ''a''), (rcv2, PStr ''c''), (rcv3, PStr ''b'')], [rcv1, rcv2, rcv3])
   \<and> map fst [(rcv1, PStr ''a''), (rcv2, PStr ''c''), (rcv3, PStr ''b'')] = map fst ex_calls"
proof -
  let ?ok = "ex_invoke (Return (PStr ''c''))"
  have 1: "\<not> lock (Signal None)" by (simp add: Signal_def)
  have 2: "distinct (map key_of ex_calls)"
    by (simp add: ex_calls_def key_of_def ex_defs)
  have 3: "set (map key_of ex_calls) \<inter> fst ` set (receivers (Signal None)) = {}"
    by (simp add: Signal_def)
  have 4: "\<forall>(r, sd, wk, uid) \<in> set ex_calls.
           (make_id sd = none_senderkey \<or> make_id sd = make_id snd1)
           \<and> (wk \<longrightarrow> (\<exists>wr. ex_safeRef r = Some wr \<and> ex_resolve wr = Some r))"
    by (simp add: ex_calls_def none_senderkey_def ex_safeRef_def ex_resolve_def)
  have c: "connect_all ex_safeRef ex_calls (Signal None) = Done ex_connected"
    by (simp add: ex_calls_def connect_def acquire_def release_def Signal_def ex_safeRef_def
        ex_connected_def ex_defs)
  have e: "live_receivers ex_resolve (Signal None) (make_id snd1) = []"
    by (simp add: live_receivers_def Signal_def)
  have s: "send ex_resolve ?ok ex_connected snd1 () []
       = (Inr [(rcv1, PStr ''a''), (rcv2, PStr ''c''), (rcv3, PStr ''b'')], [rcv1, rcv2, rcv3])"
    by (simp add: send_def live_receivers_def ex_connected_def ex_resolve_def none_senderkey_def
        ex_defs ex_invoke_def)
  from dispatch_order_is_subscription_order [OF 1 2 3 4, where invoke = ?ok and named = "()"
      and w = "[]"] c e s
  have "live_receivers ex_resolve ex_connected (make_id snd1) = map fst ex_calls
      \<and> map fst [(rcv1, PStr ''a''), (rcv2, PStr ''c''), (rcv3, PStr ''b'')] = map fst ex_calls"
    by auto
  moreover have "map fst ex_calls = [rcv1, rcv2, rcv3]" by (simp add: ex_calls_def)
  ultimately show ?thesis using 1 2 3 c s by simp
qed

section \<open>Dispatch and the lock\<close>

text \<open>
  C9. Dispatch is to read the registry while it holds the lock, and to give the lock
  back before it calls a receiver. \<^verbatim>\<open>connect\<close>, \<^verbatim>\<open>disconnect\<close> and
  \<^verbatim>\<open>_remove_receiver\<close> take the lock around every access to \<^verbatim>\<open>self.receivers\<close>;
  \<^verbatim>\<open>_live_receivers\<close>, \<^verbatim>\<open>send\<close> and \<^verbatim>\<open>send_robust\<close> never take it. The code
  evaluated on a signal whose lock is held, as it is while another thread is inside
  one of those three: they wait for the lock, whereas dispatch reads the registry and
  calls the three receivers without it.
\<close>

theorem dispatch_reads_registry_unguarded:
  "lock ex_held
   \<and> connect ex_safeRef rcv1 snd2 False PNone ex_held = Blocked
   \<and> disconnect rcv2 snd1 True PNone ex_held = Blocked
   \<and> remove_receiver (Weak 7) ex_held = Blocked
   \<and> live_receivers ex_resolve ex_held (make_id snd1) = [rcv1, rcv2, rcv3]
   \<and> send ex_resolve (ex_invoke (Return (PStr ''c''))) ex_held snd1 () []
       = (Inr [(rcv1, PStr ''a''), (rcv2, PStr ''c''), (rcv3, PStr ''b'')], [rcv1, rcv2, rcv3])
   \<and> send_robust ex_resolve (ex_invoke (Return (PStr ''c''))) ex_held snd1 () []
       = (Inr [(rcv1, PStr ''a''), (rcv2, PStr ''c''), (rcv3, PStr ''b'')], [rcv1, rcv2, rcv3])"
  by (simp add: ex_held_def connect_def disconnect_def remove_receiver_def acquire_def
      send_def send_robust_def live_receivers_def ex_three_def
      ex_resolve_def none_senderkey_def ex_defs ex_invoke_def)

end
